theory Spec2Isabelle
  imports Main "HOL-Library.Multiset" "HOL-Library.Sublist"
begin

section \<open>The process forest of \<^verbatim>\<open>citnames/source/semantic/Tool.cc\<close>\<close>

text \<open>
  \<^verbatim>\<open>Forest<Entry, Id>\<close> is generic in the entry and the id type and is given two
  extractor functions. Its three members are two hash maps and a list. The call
  \<^verbatim>\<open>map.at(key)\<close> throws \<^verbatim>\<open>std::out_of_range\<close> on a missing key; that is the
  only exception the forest code can raise, and it is a value of the model.
\<close>

datatype exn = OutOfRange

record ('e, 'id) forest =
  entries :: "'id \<rightharpoonup> 'e"
  nodes :: "'id \<rightharpoonup> 'id list"
  roots :: "'id list"

text \<open>The state of the first loop of the constructor: both maps and both hash sets.\<close>

record ('e, 'id) build =
  b_entries :: "'id \<rightharpoonup> 'e"
  b_nodes :: "'id \<rightharpoonup> 'id list"
  maybe_roots :: "'id set"
  non_roots :: "'id set"

definition build_init :: "('e, 'id) build" where
  "build_init = \<lparr>b_entries = Map.empty, b_nodes = Map.empty, maybe_roots = {}, non_roots = {}\<rparr>"

text \<open>
  \<^verbatim>\<open>unordered_map::emplace\<close> inserts only when the key is absent: an existing
  element is left as it is.
\<close>

definition emplace :: "('k \<rightharpoonup> 'v) \<Rightarrow> 'k \<Rightarrow> 'v \<Rightarrow> ('k \<rightharpoonup> 'v)" where
  "emplace m k v = (case m k of None \<Rightarrow> m(k \<mapsto> v) | Some _ \<Rightarrow> m)"

text \<open>One iteration of \<^verbatim>\<open>for (Entry const &entry : input)\<close> (lines 84 to 109).\<close>

definition insert_entry ::
  "('e \<Rightarrow> 'id) \<Rightarrow> ('e \<Rightarrow> 'id) \<Rightarrow> 'e \<Rightarrow> ('e, 'id) build \<Rightarrow> ('e, 'id) build" where
  "insert_entry id_extractor parent_id_extractor entry st =
    (let ident = id_extractor entry;
         parent = parent_id_extractor entry;
         entries1 = emplace (b_entries st) ident entry;
         nodes1 = (case b_nodes st ident of
                     None \<Rightarrow> emplace (b_nodes st) ident []
                   | Some _ \<Rightarrow> b_nodes st);
         nodes2 = (case nodes1 parent of
                     Some children \<Rightarrow> nodes1(parent \<mapsto> children @ [ident])
                   | None \<Rightarrow> emplace nodes1 parent [ident]);
         maybe1 = (if ident \<in> maybe_roots st then maybe_roots st - {ident} else maybe_roots st);
         non1 = insert ident (non_roots st);
         maybe2 = (if parent \<notin> non1 then insert parent maybe1 else maybe1)
     in \<lparr>b_entries = entries1, b_nodes = nodes2, maybe_roots = maybe2, non_roots = non1\<rparr>)"

text \<open>
  The second loop (lines 111 to 120) runs over the hash set \<^verbatim>\<open>maybe_roots\<close>; the
  list argument is the order in which the hash set hands out its elements.
\<close>

fun fix_phantoms ::
  "('id \<rightharpoonup> 'e) \<Rightarrow> 'id list \<Rightarrow> ('id \<rightharpoonup> 'id list) \<Rightarrow> 'id set \<Rightarrow> exn + ('id \<rightharpoonup> 'id list) \<times> 'id set" where
  "fix_phantoms ents [] nds new_roots = Inr (nds, new_roots)"
| "fix_phantoms ents (root # rest) nds new_roots =
    (case ents root of
       None \<Rightarrow>
         (case nds root of
            None \<Rightarrow> Inl OutOfRange
          | Some children \<Rightarrow> fix_phantoms ents rest (nds(root := None)) (new_roots \<union> set children))
     | Some _ \<Rightarrow> fix_phantoms ents rest nds (insert root new_roots))"

text \<open>
  The iteration order of \<^verbatim>\<open>std::unordered_set\<close> is left open by the language: the
  constructor is modelled for any order \<open>iter\<close> that enumerates a finite set once.
\<close>

definition iteration_order :: "('id set \<Rightarrow> 'id list) \<Rightarrow> bool" where
  "iteration_order iter \<longleftrightarrow> (\<forall>S. finite S \<longrightarrow> set (iter S) = S \<and> distinct (iter S))"

definition Forest ::
  "('id::linorder set \<Rightarrow> 'id list) \<Rightarrow> ('e \<Rightarrow> 'id) \<Rightarrow> ('e \<Rightarrow> 'id) \<Rightarrow> 'e list \<Rightarrow> exn + ('e, 'id) forest" where
  "Forest iter id_extractor parent_id_extractor input =
    (let st = fold (insert_entry id_extractor parent_id_extractor) input build_init
     in case fix_phantoms (b_entries st) (iter (maybe_roots st)) (b_nodes st) {} of
          Inl e \<Rightarrow> Inl e
        | Inr (nds, new_roots) \<Rightarrow>
            Inr \<lparr>entries = b_entries st, nodes = nds, roots = sort (iter new_roots)\<rparr>)"

text \<open>
  \<^verbatim>\<open>Forest::bfs\<close> (lines 126 to 152). The loop has no bound of its own, so it is a
  partial function: \<open>None\<close> is a run that never leaves the loop, \<open>Some (Inl e)\<close> one
  that throws, \<open>Some (Inr r)\<close> one that returns. Besides the result list the model
  keeps \<open>queried\<close>, the ids on whose entry \<^verbatim>\<open>function\<close> was called, in call order.
\<close>

partial_function (option) bfs_loop ::
  "('e, 'id) forest \<Rightarrow> ('e \<Rightarrow> 'x + 'o list) \<Rightarrow> 'id list \<Rightarrow> 'o list \<Rightarrow> 'id list \<Rightarrow>
     (exn + 'o list \<times> 'id list) option" where
  "bfs_loop F function queue result queried =
    (case queue of
       [] \<Rightarrow> Some (Inr (result, queried))
     | ident # rest \<Rightarrow>
         (case entries F ident of
            None \<Rightarrow> Some (Inl OutOfRange)
          | Some entry \<Rightarrow>
              (case function entry of
                 Inr outputs \<Rightarrow> bfs_loop F function rest (result @ outputs) (queried @ [ident])
               | Inl _ \<Rightarrow>
                   (case nodes F ident of
                      None \<Rightarrow> Some (Inl OutOfRange)
                    | Some ids \<Rightarrow> bfs_loop F function (rest @ ids) result (queried @ [ident])))))"

definition bfs_run ::
  "('e, 'id) forest \<Rightarrow> ('e \<Rightarrow> 'x + 'o list) \<Rightarrow> (exn + 'o list \<times> 'id list) option" where
  "bfs_run F function = bfs_loop F function (roots F) [] []"

definition bfs :: "('e, 'id) forest \<Rightarrow> ('e \<Rightarrow> 'x + 'o list) \<Rightarrow> (exn + 'o list) option" where
  "bfs F function = map_option (map_sum id fst) (bfs_run F function)"


section \<open>Recognizer selection: \<^verbatim>\<open>Tools::select\<close> and \<^verbatim>\<open>Tools::recognize\<close>\<close>

text \<open>
  Both failures of \<^verbatim>\<open>select\<close> are a \<^verbatim>\<open>std::runtime_error\<close>; its message is the
  only thing that tells them apart.
\<close>

datatype error = RuntimeError string

definition excluded :: error where
  "excluded = RuntimeError ''The compiler is on the exclude list from configuration.''"

definition unrecognized :: error where
  "unrecognized = RuntimeError ''No tools recognize this command.''"

text \<open>
  Modelled from the spec: the command and execution records of the report (spec section 3);
  their declarations are in a header that is not among the sources. The code reads
  \<^verbatim>\<open>command.program\<close>, \<^verbatim>\<open>execution.command\<close>, \<^verbatim>\<open>execution.run.pid\<close> and
  \<^verbatim>\<open>execution.run.ppid\<close>. Paths are compared with the equality of their own type \<open>'p\<close>.
\<close>

record 'p command =
  program :: 'p
  arguments :: "string list"

record run =
  pid :: nat
  ppid :: nat

record 'p execution =
  command :: "'p command"
  run :: run

text \<open>
  Modelled from the spec: the recognizer interface of spec section 4.2 (the abstract class
  \<^verbatim>\<open>Tool\<close> of \<^verbatim>\<open>Tool.h\<close>), as the record of its three virtual functions.
\<close>

record ('p, 's) tool =
  name :: string
  recognize :: "'p \<Rightarrow> bool"
  compilations :: "'p command \<Rightarrow> error + 's list"

record ('p, 's) Tools =
  tools :: "('p, 's) tool list"
  to_exclude :: "'p list"

text \<open>
  The \<^verbatim>\<open>for\<close> loop of \<^verbatim>\<open>select\<close> (lines 222 to 227): the first component lists the
  tools whose \<^verbatim>\<open>recognize\<close> was called, in call order, the second is the tool returned
  from inside the loop, if any.
\<close>

fun scan :: "('p, 's) tool list \<Rightarrow> 'p \<Rightarrow> ('p, 's) tool list \<times> ('p, 's) tool option" where
  "scan [] prog = ([], None)"
| "scan (t # rest) prog =
     (if recognize t prog then ([t], Some t)
      else (case scan rest prog of (called, found) \<Rightarrow> (t # called, found)))"

definition select_traced ::
  "('p, 's) Tools \<Rightarrow> 'p command \<Rightarrow> ('p, 's) tool list \<times> (error + ('p, 's) tool)" where
  "select_traced T cmd =
     (if program cmd \<in> set (to_exclude T) then ([], Inl excluded)
      else (case scan (tools T) (program cmd) of
              (called, Some t) \<Rightarrow> (called, Inr t)
            | (called, None) \<Rightarrow> (called, Inl unrecognized)))"

definition select :: "('p, 's) Tools \<Rightarrow> 'p command \<Rightarrow> error + ('p, 's) tool" where
  "select T cmd = snd (select_traced T cmd)"

definition Tools_recognize :: "('p, 's) Tools \<Rightarrow> 'p execution \<Rightarrow> error + 's list" where
  "Tools_recognize T execution =
     (case select T (command execution) of
        Inl e \<Rightarrow> Inl e
      | Inr t \<Rightarrow> compilations t (command execution))"

text \<open>
  \<^verbatim>\<open>Tools::transform\<close> (lines 178 to 195) builds the forest with the two extractors
  below; \<open>into_entry\<close> is the projection of a semantic to at most one entry.
\<close>

definition pid_of :: "'p execution \<Rightarrow> nat" where
  "pid_of execution = pid (run execution)"

definition ppid_of :: "'p execution \<Rightarrow> nat" where
  "ppid_of execution = ppid (run execution)"

definition transform ::
  "(nat set \<Rightarrow> nat list) \<Rightarrow> ('s \<Rightarrow> 'entry option) \<Rightarrow> ('p, 's) Tools \<Rightarrow> 'p execution list \<Rightarrow>
     (exn + 'entry list) option" where
  "transform iter into_entry T executions =
     (case Forest iter pid_of ppid_of executions of
        Inl e \<Rightarrow> Some (Inl e)
      | Inr F \<Rightarrow> map_option (map_sum id (List.map_filter into_entry)) (bfs F (Tools_recognize T)))"

section \<open>The linker recognizer of \<^verbatim>\<open>ToolLD.cc\<close>\<close>

text \<open>
  \<^verbatim>\<open>ToolLD::recognize\<close> hands the file name of the program, as a C string, to
  \<^verbatim>\<open>std::regex_match\<close> with the pattern \<^verbatim>\<open>(.*)ld(.*)\<close> in the default (ECMAScript)
  grammar. There the dot matches every character but a line terminator, which for
  \<^verbatim>\<open>char\<close> is line feed or carriage return, and \<^verbatim>\<open>regex_match\<close> succeeds only when
  the pattern matches the whole string. The matcher below decides that by derivatives.
\<close>

datatype regex =
    Fail
  | Eps
  | Any
  | Lit char
  | Seq regex regex
  | Alt regex regex
  | Star regex
  | Group regex

definition line_terminator :: "char \<Rightarrow> bool" where
  "line_terminator c \<longleftrightarrow> c = CHR 0x0A \<or> c = CHR 0x0D"

fun nullable :: "regex \<Rightarrow> bool" where
  "nullable Fail = False"
| "nullable Eps = True"
| "nullable Any = False"
| "nullable (Lit c) = False"
| "nullable (Seq r s) = (nullable r \<and> nullable s)"
| "nullable (Alt r s) = (nullable r \<or> nullable s)"
| "nullable (Star r) = True"
| "nullable (Group r) = nullable r"

fun deriv :: "char \<Rightarrow> regex \<Rightarrow> regex" where
  "deriv c Fail = Fail"
| "deriv c Eps = Fail"
| "deriv c Any = (if line_terminator c then Fail else Eps)"
| "deriv c (Lit d) = (if c = d then Eps else Fail)"
| "deriv c (Seq r s) =
     (if nullable r then Alt (Seq (deriv c r) s) (deriv c s) else Seq (deriv c r) s)"
| "deriv c (Alt r s) = Alt (deriv c r) (deriv c s)"
| "deriv c (Star r) = Seq (deriv c r) (Star r)"
| "deriv c (Group r) = deriv c r"

fun regex_match :: "string \<Rightarrow> regex \<Rightarrow> bool" where
  "regex_match [] r = nullable r"
| "regex_match (c # cs) r = regex_match cs (deriv c r)"

definition pattern :: regex where
  "pattern = Seq (Group (Star Any)) (Seq (Lit CHR ''l'') (Seq (Lit CHR ''d'') (Group (Star Any))))"

text \<open>\<^verbatim>\<open>path::filename()\<close>: what follows the last directory separator of the path.\<close>

definition filename :: "string \<Rightarrow> string" where
  "filename prog = rev (takeWhile (\<lambda>c. c \<noteq> CHR ''/'') (rev prog))"

text \<open>\<^verbatim>\<open>c_str()\<close> is read as a C string: up to the first zero byte.\<close>

definition c_str :: "string \<Rightarrow> string" where
  "c_str s = takeWhile (\<lambda>c. c \<noteq> CHR 0x00) s"

definition ToolLD_recognize :: "string \<Rightarrow> bool" where
  "ToolLD_recognize prog = regex_match (c_str (filename prog)) pattern"

section \<open>Notions used to state the properties\<close>

text \<open>The children of an id in first-seen order: the ids of the records that name it as parent.\<close>

definition children_of :: "('e \<Rightarrow> 'id) \<Rightarrow> ('e \<Rightarrow> 'id) \<Rightarrow> 'e list \<Rightarrow> 'id \<Rightarrow> 'id list" where
  "children_of idx par input i = map idx (filter (\<lambda>e. par e = i) input)"

text \<open>The ids whose parent was never logged.\<close>

definition top_level :: "('e \<Rightarrow> 'id) \<Rightarrow> ('e \<Rightarrow> 'id) \<Rightarrow> 'e list \<Rightarrow> 'id set" where
  "top_level idx par input = set (map idx (filter (\<lambda>e. par e \<notin> idx ` set input) input))"

text \<open>The state of the first loop of the constructor after it has read \<open>input\<close>.\<close>

definition built :: "('e \<Rightarrow> 'id) \<Rightarrow> ('e \<Rightarrow> 'id) \<Rightarrow> 'e list \<Rightarrow> ('e, 'id) build" where
  "built idx par input =
     \<lparr>b_entries = (\<lambda>i. find (\<lambda>e. idx e = i) input),
      b_nodes = (\<lambda>i. if i \<in> idx ` set input \<union> par ` set input
                      then Some (children_of idx par input i) else None),
      maybe_roots = par ` set input - idx ` set input,
      non_roots = idx ` set input\<rparr>"

text \<open>The forest the constructor ends with.\<close>

definition forest_of :: "('e \<Rightarrow> 'id::linorder) \<Rightarrow> ('e \<Rightarrow> 'id) \<Rightarrow> 'e list \<Rightarrow> ('e, 'id) forest" where
  "forest_of idx par input =
     \<lparr>entries = (\<lambda>i. find (\<lambda>e. idx e = i) input),
      nodes = (\<lambda>i. if i \<in> idx ` set input then Some (children_of idx par input i) else None),
      roots = sorted_list_of_set (top_level idx par input)\<rparr>"

text \<open>What one visited id adds to the result, and what it adds to the work queue.\<close>

definition produced :: "('e, 'id) forest \<Rightarrow> ('e \<Rightarrow> 'x + 'o list) \<Rightarrow> 'id \<Rightarrow> 'o list" where
  "produced F f i =
     (case entries F i of
        None \<Rightarrow> []
      | Some entry \<Rightarrow> (case f entry of Inr outputs \<Rightarrow> outputs | Inl _ \<Rightarrow> []))"

definition enqueued :: "('e, 'id) forest \<Rightarrow> ('e \<Rightarrow> 'x + 'o list) \<Rightarrow> 'id \<Rightarrow> 'id list" where
  "enqueued F f i =
     (case entries F i of
        None \<Rightarrow> []
      | Some entry \<Rightarrow>
          (case f entry of
             Inr _ \<Rightarrow> []
           | Inl _ \<Rightarrow> (case nodes F i of None \<Rightarrow> [] | Some ids \<Rightarrow> ids)))"

text \<open>The recognition function fails on the entry of an id.\<close>

definition fails :: "('e, 'id) forest \<Rightarrow> ('e \<Rightarrow> 'x + 'o list) \<Rightarrow> 'id \<Rightarrow> bool" where
  "fails F f i = (case entries F i of None \<Rightarrow> False | Some entry \<Rightarrow> isl (f entry))"

text \<open>
  The invariant of the traversal of a log with unique ids: nothing is queued or visited
  twice, and whatever is queued or visited has its parent, if logged, among the visited.
\<close>

definition visit_inv ::
  "('e \<Rightarrow> 'id) \<Rightarrow> ('e \<Rightarrow> 'id) \<Rightarrow> 'e list \<Rightarrow> 'id list \<Rightarrow> 'id list \<Rightarrow> bool" where
  "visit_inv idx par input queue queried \<longleftrightarrow>
     distinct (queried @ queue) \<and> set (queried @ queue) \<subseteq> idx ` set input \<and>
     (\<forall>e\<in>set input. idx e \<in> set (queried @ queue) \<longrightarrow> par e \<in> idx ` set input \<longrightarrow>
        par e \<in> set queried)"

text \<open>
  Flattening a forest (spec section 8): the ids in the order in which a traversal visits
  them when nothing is recognized.
\<close>

definition never_recognized :: "'e \<Rightarrow> unit + unit list" where
  "never_recognized entry = Inl ()"



text \<open>The strings a pattern stands for.\<close>

inductive_set star :: "string set \<Rightarrow> string set" for A :: "string set" where
  star_empty: "[] \<in> star A"
| star_step: "u \<in> A \<Longrightarrow> v \<in> star A \<Longrightarrow> u @ v \<in> star A"

fun lang :: "regex \<Rightarrow> string set" where
  "lang Fail = {}"
| "lang Eps = {[]}"
| "lang Any = {[c] | c. \<not> line_terminator c}"
| "lang (Lit d) = {[d]}"
| "lang (Seq r s) = {u @ v | u v. u \<in> lang r \<and> v \<in> lang s}"
| "lang (Alt r s) = lang r \<union> lang s"
| "lang (Star r) = star (lang r)"
| "lang (Group r) = lang r"

section \<open>Example inputs\<close>

text \<open>Two recognizers: one accepts every program, one only the C compiler.\<close>

definition accept_all :: "(string, string) tool" where
  "accept_all = \<lparr>name = ''any'', recognize = (\<lambda>p. True), compilations = (\<lambda>c. Inr [program c])\<rparr>"

definition cc_only :: "(string, string) tool" where
  "cc_only = \<lparr>name = ''cc'', recognize = (\<lambda>p. p = ''/usr/bin/cc''), compilations = (\<lambda>c. Inr [program c])\<rparr>"

text \<open>A linker path whose file name ends in a line feed.\<close>

definition newline_ld :: string where
  "newline_ld = ''/usr/bin/ld'' @ [CHR 0x0A]"

text \<open>
  Logs for the examples: a record is its id, the id of its parent and a label. In
  \<open>twice_logged\<close> one id is logged twice, in \<open>orphans\<close> the common parent is not logged.
\<close>

definition id_of :: "nat \<times> nat \<times> string \<Rightarrow> nat" where
  "id_of e = fst e"

definition parent_of :: "nat \<times> nat \<times> string \<Rightarrow> nat" where
  "parent_of e = fst (snd e)"

definition twice_logged :: "(nat \<times> nat \<times> string) list" where
  "twice_logged = [(1, 0, ''first''), (1, 0, ''second'')]"

definition orphans :: "(nat \<times> nat \<times> string) list" where
  "orphans = [(3, 1, ''cc''), (2, 1, ''as'')]"

text \<open>A log with unique ids in which the record of id 2 names itself as parent.\<close>

definition self_parent :: "(nat \<times> nat \<times> string) list" where
  "self_parent = [(1, 0, ''sh''), (2, 2, ''loop''), (3, 1, ''cc'')]"

text \<open>
  The chain of three processes A, B, C, each the parent of the next, and a recognition
  function that succeeds on every record with the label of the record as its output.
\<close>

definition label_of :: "nat \<times> nat \<times> string \<Rightarrow> string" where
  "label_of e = snd (snd e)"



text \<open>
  A log in which the id 1 is used twice: by a process and, later, by a grandchild of it.
\<close>

definition reused_pid :: "(nat \<times> nat \<times> string) list" where
  "reused_pid = [(1, 0, ''make''), (2, 1, ''sh''), (1, 2, ''cc'')]"

text \<open>
  A shell that starts a compiler, as two executions of the report, and a registry that
  excludes the shell and recognizes the compiler.
\<close>

definition sh_run :: "string execution" where
  "sh_run = \<lparr>command = \<lparr>program = ''/bin/sh'', arguments = [''sh'', ''-c'', ''cc -c a.c'']\<rparr>,
             run = \<lparr>pid = 1, ppid = 0\<rparr>\<rparr>"

definition cc_run :: "string execution" where
  "cc_run = \<lparr>command = \<lparr>program = ''/usr/bin/cc'', arguments = [''cc'', ''-c'', ''a.c'']\<rparr>,
             run = \<lparr>pid = 2, ppid = 1\<rparr>\<rparr>"

definition registry :: "(string, string) Tools" where
  "registry = \<lparr>tools = [cc_only], to_exclude = [''/bin/sh'']\<rparr>"


text \<open>
  A build with two top-level processes, logged out of order, and a recognition function
  that succeeds on the compiler runs, with the id of the run as its output.
\<close>

definition build_log :: "(nat \<times> nat \<times> string) list" where
  "build_log = [(4, 0, ''sh''), (2, 0, ''make''), (5, 2, ''cc''), (6, 4, ''cc''), (3, 2, ''cc''),
                (7, 5, ''as'')]"

definition recognize_cc :: "nat \<times> nat \<times> string \<Rightarrow> unit + nat list" where
  "recognize_cc e = (if label_of e = ''cc'' then Inr [id_of e] else Inl ())"


section \<open>The constructor in closed form\<close>

lemma find_snoc:
  "find P (xs @ [x]) = (case find P xs of None \<Rightarrow> (if P x then Some x else None) | Some y \<Rightarrow> Some y)"
  by (induction xs) auto

lemma children_of_snoc:
  "children_of idx par (xs @ [x]) i = children_of idx par xs i @ (if par x = i then [idx x] else [])"
  by (simp add: children_of_def)

lemma children_of_empty: "i \<notin> par ` set xs \<Longrightarrow> children_of idx par xs i = []"
  by (auto simp: children_of_def filter_empty_conv)

lemma insert_entry_built:
  "insert_entry idx par x (built idx par xs) = built idx par (xs @ [x])"
proof -
  let ?st = "built idx par xs"
  let ?r = "insert_entry idx par x ?st"
  have 1: "b_entries ?r = b_entries (built idx par (xs @ [x]))"
    by (rule ext) (auto simp: insert_entry_def Let_def built_def emplace_def find_snoc split: option.splits)
  have 2: "b_nodes ?r = b_nodes (built idx par (xs @ [x]))"
    apply (rule ext)
    apply (auto simp: insert_entry_def Let_def built_def emplace_def children_of_snoc
                  children_of_empty split: option.splits if_splits)
    done
  have 3: "maybe_roots ?r = maybe_roots (built idx par (xs @ [x]))"
    by (auto simp: insert_entry_def Let_def built_def) (metis imageI)+
  have 4: "non_roots ?r = non_roots (built idx par (xs @ [x]))"
    by (auto simp: insert_entry_def Let_def built_def)
  have 5: "build.more ?r = build.more (built idx par (xs @ [x]))"
    by simp
  show ?thesis
    using 1 2 3 4 5 by (rule build.equality)
qed

lemma fold_insert_entry:
  "fold (insert_entry idx par) input build_init = built idx par input"
proof (induction input rule: rev_induct)
  case Nil
  show ?case by (simp add: build_init_def built_def children_of_def)
next
  case (snoc x xs)
  then show ?case by (simp add: insert_entry_built)
qed

lemma fix_phantoms_closed:
  "distinct rs \<Longrightarrow>
   fix_phantoms ents rs nds nr =
     (if \<exists>r\<in>set rs. ents r = None \<and> nds r = None then Inl OutOfRange
      else Inr ((\<lambda>i. if i \<in> set rs \<and> ents i = None then None else nds i),
                nr \<union> {r \<in> set rs. ents r \<noteq> None}
                   \<union> (\<Union>r\<in>{r \<in> set rs. ents r = None}. case nds r of None \<Rightarrow> {} | Some cs \<Rightarrow> set cs)))"
proof (induction rs arbitrary: nds nr)
  case Nil
  show ?case by simp
next
  case (Cons r rs)
  then have d: "r \<notin> set rs" "distinct rs" by simp_all
  show ?case
  proof (cases "ents r")
    case (Some e)
    then show ?thesis
      using Cons.IH [OF d(2), of nds "insert r nr"] d(1)
      by (auto split: option.splits intro!: ext)
  next
    case None
    show ?thesis
    proof (cases "nds r")
      case n: None
      then show ?thesis using None by simp
    next
      case (Some cs)
      have "fix_phantoms ents (r # rs) nds nr = fix_phantoms ents rs (nds(r := None)) (nr \<union> set cs)"
        using None Some by simp
      also note Cons.IH [OF d(2), of "nds(r := None)" "nr \<union> set cs"]
      finally show ?thesis
        using None Some d(1)
        by (auto split: option.splits if_splits intro!: ext)
    qed
  qed
qed

lemma sort_iteration:
  "iteration_order iter \<Longrightarrow> finite S \<Longrightarrow> sort (iter S) = sorted_list_of_set S"
  by (metis iteration_order_def distinct_remdups_id sorted_list_of_set_sort_remdups)

lemma find_None_image: "find (\<lambda>e. idx e = i) xs = None \<longleftrightarrow> i \<notin> idx ` set xs"
  by (auto simp: find_None_iff)

lemma Forest_closed:
  assumes it: "iteration_order iter"
  shows "Forest iter idx par input = Inr (forest_of idx par input)"
proof -
  let ?I = "idx ` set input" and ?P = "par ` set input"
  let ?ents = "\<lambda>i. find (\<lambda>e. idx e = i) input"
  let ?nds = "\<lambda>i. if i \<in> ?I \<union> ?P then Some (children_of idx par input i) else None"
  have fin: "finite (?P - ?I)" by simp
  have rs: "set (iter (?P - ?I)) = ?P - ?I" "distinct (iter (?P - ?I))"
    using it fin by (auto simp: iteration_order_def)
  have noerr: "\<not> (\<exists>r\<in>set (iter (?P - ?I)). ?ents r = None \<and> ?nds r = None)"
    unfolding rs(1) by auto
  have nds: "(\<lambda>i. if i \<in> set (iter (?P - ?I)) \<and> ?ents i = None then None else ?nds i)
      = (\<lambda>i. if i \<in> ?I then Some (children_of idx par input i) else None)"
    unfolding rs(1) by (rule ext) (auto simp: find_None_image)
  have nr: "{} \<union> {r \<in> set (iter (?P - ?I)). ?ents r \<noteq> None}
       \<union> (\<Union>r\<in>{r \<in> set (iter (?P - ?I)). ?ents r = None}.
             case ?nds r of None \<Rightarrow> {} | Some cs \<Rightarrow> set cs) = top_level idx par input"
    unfolding rs(1) find_None_image
    by (auto simp: top_level_def children_of_def)
  have fp: "fix_phantoms ?ents (iter (?P - ?I)) ?nds {} =
     Inr ((\<lambda>i. if i \<in> ?I then Some (children_of idx par input i) else None), top_level idx par input)"
    unfolding fix_phantoms_closed [OF rs(2)] using noerr nds nr by simp
  have fin2: "finite (top_level idx par input)" by (simp add: top_level_def)
  show ?thesis
    apply (simp only: Forest_def Let_def fold_insert_entry)
    apply (simp only: built_def build.select_convs fp)
    apply (simp add: forest_of_def sort_iteration [OF it fin2])
    done
qed


section \<open>The traversal: trace and termination\<close>


lemma bfs_loop_trace_aux:
  assumes "bfs_loop F f queue result queried = Some y"
  shows "\<forall>result' queried'. y = Inr (result', queried') \<longrightarrow>
           (\<exists>new. queried' = queried @ new \<and>
               result' = result @ concat (map (produced F f) new) \<and>
               new = queue @ concat (map (enqueued F f) new))"
proof -
  let ?P = "\<lambda>F f queue result queried y.
       \<forall>result' queried'. y = Inr (result', queried') \<longrightarrow>
           (\<exists>new. queried' = queried @ new \<and>
               result' = result @ concat (map (produced F f) new) \<and>
               new = queue @ concat (map (enqueued F f) new))"
  show ?thesis
proof (rule bfs_loop.raw_induct [where P = ?P], goal_cases)
  case 2
  show ?case by (rule assms)
next
  case (1 loop F fn queue result queried y)
  show ?case
  proof (cases queue)
    case Nil
    with 1(2) show ?thesis by auto
  next
    case (Cons i rest)
    show ?thesis
    proof (cases "entries F i")
      case None
      with 1(2) Cons show ?thesis by auto
    next
      case (Some entry)
      show ?thesis
      proof (cases "fn entry")
        case (Inr outputs)
        with 1(2) Cons Some have "loop F fn rest (result @ outputs) (queried @ [i]) = Some y"
          by simp
        from 1(1) [OF this] show ?thesis
          using Cons Some Inr
          by (clarsimp simp: produced_def enqueued_def)
      next
        case (Inl err)
        show ?thesis
        proof (cases "nodes F i")
          case None
          with 1(2) Cons Some Inl show ?thesis by auto
        next
          case ids: (Some ids)
          with 1(2) Cons Some Inl have "loop F fn (rest @ ids) result (queried @ [i]) = Some y"
            by simp
          from 1(1) [OF this] show ?thesis
            using Cons Some Inl ids
            by (clarsimp simp: produced_def enqueued_def)
        qed
      qed
    qed
  qed
qed
qed


lemma bfs_loop_total:
  assumes inv: "I queue queried"
    and step: "\<And>i rest qd. I (i # rest) qd \<Longrightarrow>
       \<exists>e. entries F i = Some e \<and>
         (case f e of Inr _ \<Rightarrow> I rest (qd @ [i])
          | Inl _ \<Rightarrow> (\<exists>ids. nodes F i = Some ids \<and> I (rest @ ids) (qd @ [i])))"
    and bound: "\<And>q qd. I q qd \<Longrightarrow> length qd + length q \<le> N"
  shows "\<exists>result' queried'. bfs_loop F f queue result queried = Some (Inr (result', queried'))
           \<and> I [] queried'"
  using inv
proof (induction "N - length queried" arbitrary: queue result queried rule: less_induct)
  case less
  show ?case
  proof (cases queue)
    case Nil
    then show ?thesis using less.prems by (subst bfs_loop.simps) simp
  next
    case (Cons i rest)
    from step [of i rest queried] less.prems Cons obtain e where e: "entries F i = Some e"
      and c: "case f e of Inr _ \<Rightarrow> I rest (queried @ [i])
          | Inl _ \<Rightarrow> (\<exists>ids. nodes F i = Some ids \<and> I (rest @ ids) (queried @ [i]))"
      by blast
    from bound [OF less.prems] Cons have lt: "N - length (queried @ [i]) < N - length queried"
      by simp
    show ?thesis
    proof (cases "f e")
      case (Inr outputs)
      with c have "I rest (queried @ [i])" by simp
      from less.hyps [OF lt this, of "result @ outputs"] show ?thesis
        using Cons e Inr by (subst bfs_loop.simps) simp
    next
      case (Inl err)
      with c obtain ids where ids: "nodes F i = Some ids" and "I (rest @ ids) (queried @ [i])"
        by auto
      from less.hyps [OF lt this(2), of result] show ?thesis
        using Cons e Inl ids by (subst bfs_loop.simps) simp
    qed
  qed
qed


lemma children_of_distinct:
  "distinct (map idx input) \<Longrightarrow> distinct (children_of idx par input i)"
  unfolding children_of_def by (rule distinct_map_filter)

lemma children_of_mem:
  "c \<in> set (children_of idx par input i) \<longleftrightarrow> (\<exists>e\<in>set input. idx e = c \<and> par e = i)"
  by (auto simp: children_of_def)

lemma visit_inv_init:
  assumes "distinct (map idx input)"
  shows "visit_inv idx par input (sorted_list_of_set (top_level idx par input)) []"
proof -
  have inj: "inj_on idx (set input)" using assms by (simp add: distinct_map)
  have fin: "finite (top_level idx par input)" by (simp add: top_level_def)
  show ?thesis
    unfolding visit_inv_def
    using fin inj by (auto simp: top_level_def dest: inj_onD)
qed

lemma visit_inv_success:
  assumes "visit_inv idx par input (i # rest) qd"
  shows "visit_inv idx par input rest (qd @ [i])"
  using assms unfolding visit_inv_def by auto

lemma visit_inv_failure:
  assumes d: "distinct (map idx input)" and v: "visit_inv idx par input (i # rest) qd"
  shows "visit_inv idx par input (rest @ children_of idx par input i) (qd @ [i])"
proof -
  have inj: "inj_on idx (set input)" using d by (simp add: distinct_map)
  have i: "i \<in> idx ` set input" "i \<notin> set qd" "i \<notin> set rest"
    using v unfolding visit_inv_def by auto
  have fresh: "c \<notin> set (qd @ i # rest)" if "c \<in> set (children_of idx par input i)" for c
  proof
    assume c: "c \<in> set (qd @ i # rest)"
    from that obtain e where e: "e \<in> set input" "idx e = c" "par e = i"
      by (auto simp: children_of_mem)
    with v c i(1) have "par e \<in> set qd" unfolding visit_inv_def by blast
    with e i(2) show False by simp
  qed
  have sub: "set (children_of idx par input i) \<subseteq> idx ` set input"
    by (auto simp: children_of_mem)
  have par_ok: "par e \<in> set (qd @ [i])"
    if "e \<in> set input" "idx e \<in> set ((qd @ [i]) @ rest @ children_of idx par input i)"
       "par e \<in> idx ` set input" for e
  proof (cases "idx e \<in> set (children_of idx par input i)")
    case True
    then obtain e' where "e' \<in> set input" "idx e' = idx e" "par e' = i"
      by (auto simp: children_of_mem)
    with inj that(1) have "par e = i" by (auto dest: inj_onD)
    then show ?thesis by simp
  next
    case False
    with that have "idx e \<in> set (qd @ i # rest)" by auto
    with v that(1,3) have "par e \<in> set qd" unfolding visit_inv_def by blast
    then show ?thesis by simp
  qed
  have dist: "distinct ((qd @ [i]) @ rest @ children_of idx par input i)"
    using v fresh children_of_distinct [OF d, of par i] unfolding visit_inv_def by auto
  have sub': "set ((qd @ [i]) @ rest @ children_of idx par input i) \<subseteq> idx ` set input"
    using sub v unfolding visit_inv_def by auto
  show ?thesis
    unfolding visit_inv_def
  proof (intro conjI ballI impI)
    show "distinct ((qd @ [i]) @ rest @ children_of idx par input i)" by (rule dist)
    show "set ((qd @ [i]) @ rest @ children_of idx par input i) \<subseteq> idx ` set input" by (rule sub')
    fix e assume "e \<in> set input" "idx e \<in> set ((qd @ [i]) @ rest @ children_of idx par input i)"
      "par e \<in> idx ` set input"
    then show "par e \<in> set (qd @ [i])" by (rule par_ok)
  qed
qed

lemma visit_inv_bound:
  assumes "visit_inv idx par input q qd"
  shows "length qd + length q \<le> length input"
proof -
  have "distinct (qd @ q)" using assms unfolding visit_inv_def by blast
  then have "length (qd @ q) = card (set (qd @ q))"
    by (rule distinct_card [symmetric])
  also have "\<dots> \<le> card (idx ` set input)"
    using assms unfolding visit_inv_def by (intro card_mono) blast+
  also have "\<dots> \<le> length input"
    using card_image_le [of "set input" idx] card_length [of input] by simp
  finally show ?thesis by simp
qed

lemma forest_of_entries_Some:
  "i \<in> idx ` set input \<Longrightarrow> \<exists>e. entries (forest_of idx par input) i = Some e"
  using find_None_image [of idx i input] by (auto simp: forest_of_def)

lemma bfs_loop_unique_ids:
  assumes d: "distinct (map idx input)" and v: "visit_inv idx par input q qd"
  shows "\<exists>result' queried'. bfs_loop (forest_of idx par input) f q result qd = Some (Inr (result', queried'))
           \<and> visit_inv idx par input [] queried'"
proof -
  let ?F = "forest_of idx par input"
  have step: "\<exists>e. entries ?F i = Some e \<and>
         (case f e of Inr _ \<Rightarrow> visit_inv idx par input rest (qd @ [i])
          | Inl _ \<Rightarrow> (\<exists>ids. nodes ?F i = Some ids \<and>
               visit_inv idx par input (rest @ ids) (qd @ [i])))"
    if a: "visit_inv idx par input (i # rest) qd" for i rest qd
  proof -
    from a have i: "i \<in> idx ` set input" unfolding visit_inv_def by simp
    from forest_of_entries_Some [OF i] obtain e where e: "entries ?F i = Some e" ..
    have n: "nodes ?F i = Some (children_of idx par input i)"
      using i by (simp add: forest_of_def)
    have "case f e of Inr _ \<Rightarrow> visit_inv idx par input rest (qd @ [i])
          | Inl _ \<Rightarrow> (\<exists>ids. nodes ?F i = Some ids \<and>
               visit_inv idx par input (rest @ ids) (qd @ [i]))"
    proof (cases "f e")
      case (Inl x)
      then show ?thesis using n visit_inv_failure [OF d a] by simp
    next
      case (Inr y)
      then show ?thesis using visit_inv_success [OF a] by simp
    qed
    with e show ?thesis by blast
  qed
  have bound: "length qd + length q \<le> length input" if "visit_inv idx par input q qd" for q qd
    using that by (rule visit_inv_bound)
  show ?thesis
    by (rule bfs_loop_total [of "visit_inv idx par input" q qd ?F f "length input" result,
          OF v step bound])
qed


section \<open>The matcher decides the language of the pattern\<close>

lemma nullable_lang: "nullable r \<longleftrightarrow> [] \<in> lang r"
  by (induction r) (auto intro: star_empty)

lemma star_cons_dest:
  assumes "x \<in> star A" and "x = c # w"
  shows "\<exists>u v. w = u @ v \<and> c # u \<in> A \<and> v \<in> star A"
  using assms
proof (induction rule: star.induct)
  case star_empty
  then show ?case by simp
next
  case (star_step u v)
  show ?case
  proof (cases u)
    case Nil
    with star_step show ?thesis by simp
  next
    case (Cons d u')
    with star_step.prems have "d = c" "w = u' @ v" by simp_all
    with star_step.hyps(1,2) Cons show ?thesis by blast
  qed
qed

lemma star_cons: "c # w \<in> star A \<longleftrightarrow> (\<exists>u v. w = u @ v \<and> c # u \<in> A \<and> v \<in> star A)"
proof
  assume "c # w \<in> star A"
  then show "\<exists>u v. w = u @ v \<and> c # u \<in> A \<and> v \<in> star A"
    by (rule star_cons_dest) simp
next
  assume "\<exists>u v. w = u @ v \<and> c # u \<in> A \<and> v \<in> star A"
  then obtain u v where "w = u @ v" "c # u \<in> A" "v \<in> star A" by blast
  then show "c # w \<in> star A" using star_step [of "c # u" A v] by simp
qed

lemma deriv_lang: "w \<in> lang (deriv c r) \<longleftrightarrow> c # w \<in> lang r"
proof (induction r arbitrary: w)
  case (Seq r s)
  have "c # w \<in> lang (Seq r s) \<longleftrightarrow>
        ([] \<in> lang r \<and> c # w \<in> lang s) \<or> (\<exists>u' v. w = u' @ v \<and> c # u' \<in> lang r \<and> v \<in> lang s)"
    by (auto simp: Cons_eq_append_conv)
  then show ?case
    using Seq by (auto simp: nullable_lang)
next
  case (Star r)
  then show ?case by (auto simp: star_cons)
qed auto

lemma regex_match_lang: "regex_match s r \<longleftrightarrow> s \<in> lang r"
  by (induction s arbitrary: r) (simp_all add: nullable_lang deriv_lang)

lemma star_Any: "w \<in> star (lang Any) \<longleftrightarrow> (\<forall>c\<in>set w. \<not> line_terminator c)"
proof
  assume "w \<in> star (lang Any)"
  then show "\<forall>c\<in>set w. \<not> line_terminator c"
    by (induction rule: star.induct) auto
next
  assume "\<forall>c\<in>set w. \<not> line_terminator c"
  then show "w \<in> star (lang Any)"
  proof (induction w)
    case Nil
    show ?case by (rule star_empty)
  next
    case (Cons c w)
    then have "[c] \<in> lang Any" "w \<in> star (lang Any)" by simp_all
    then have "[c] @ w \<in> star (lang Any)" by (rule star_step)
    then show ?case by simp
  qed
qed

lemma pattern_match:
  "regex_match s pattern \<longleftrightarrow>
     (\<exists>a b. s = a @ ''ld'' @ b \<and> (\<forall>c\<in>set a \<union> set b. \<not> line_terminator c))"
proof -
  have "s \<in> lang pattern \<longleftrightarrow>
      (\<exists>a b. s = a @ ''ld'' @ b \<and> a \<in> star (lang Any) \<and> b \<in> star (lang Any))"
    unfolding pattern_def by (simp del: lang.simps(3)) blast
  then show ?thesis
    unfolding regex_match_lang star_Any by (simp add: ball_Un)
qed

section \<open>Selection of a recognizer\<close>

lemma scan_None: "snd (scan ts p) = None \<longleftrightarrow> (\<forall>t\<in>set ts. \<not> recognize t p)"
  by (induction ts) (auto split: prod.splits)

lemma scan_first:
  "i < length ts \<Longrightarrow> recognize (ts ! i) p \<Longrightarrow> (\<forall>j<i. \<not> recognize (ts ! j) p) \<Longrightarrow>
     scan ts p = (take (Suc i) ts, Some (ts ! i))"
proof (induction ts arbitrary: i)
  case Nil
  then show ?case by simp
next
  case (Cons t ts)
  show ?case
  proof (cases i)
    case 0
    with Cons.prems show ?thesis by simp
  next
    case (Suc k)
    with Cons.prems have "\<not> recognize t p" by auto
    moreover have "scan ts p = (take (Suc k) ts, Some (ts ! k))"
      using Cons.prems Suc by (intro Cons.IH) auto
    ultimately show ?thesis using Suc by simp
  qed
qed

text \<open>
  Claim C2. A command whose program is on the exclude list makes \<^verbatim>\<open>select\<close> fail with the
  exclusion error, and no recognizer is asked: the list of called recognizers is empty,
  whatever the registry holds.
\<close>

theorem select_excluded:
  assumes "program cmd \<in> set (to_exclude T)"
  shows "select T cmd = Inl excluded \<and> fst (select_traced T cmd) = []"
  using assms by (simp add: select_def select_traced_def)

theorem select_excluded_witness:
  "recognize accept_all ''/usr/bin/cc'' \<and>
   select \<lparr>tools = [accept_all], to_exclude = [''/usr/bin/cc'']\<rparr>
          \<lparr>program = ''/usr/bin/cc'', arguments = [''cc'', ''-c'', ''a.c'']\<rparr> = Inl excluded \<and>
   fst (select_traced \<lparr>tools = [accept_all], to_exclude = [''/usr/bin/cc'']\<rparr>
          \<lparr>program = ''/usr/bin/cc'', arguments = [''cc'', ''-c'', ''a.c'']\<rparr>) = []"
  using select_excluded [of "\<lparr>program = ''/usr/bin/cc'', arguments = [''cc'', ''-c'', ''a.c'']\<rparr>"
                            "\<lparr>tools = [accept_all], to_exclude = [''/usr/bin/cc'']\<rparr>"]
  by (simp add: accept_all_def)

text \<open>
  Claim C3. For a command that is not excluded, \<^verbatim>\<open>select\<close> returns the recognizer at the
  first position of the registry whose predicate holds of the program, having asked the
  recognizers up to that position and no other; it fails with the error of an unrecognized
  command exactly when no predicate holds, and never with the exclusion error.
\<close>

theorem select_first_match:
  assumes "program cmd \<notin> set (to_exclude T)"
  shows "(\<forall>i<length (tools T).
            recognize (tools T ! i) (program cmd) \<and>
            (\<forall>j<i. \<not> recognize (tools T ! j) (program cmd)) \<longrightarrow>
            select T cmd = Inr (tools T ! i) \<and> fst (select_traced T cmd) = take (Suc i) (tools T)) \<and>
         (select T cmd = Inl unrecognized \<longleftrightarrow> (\<forall>t\<in>set (tools T). \<not> recognize t (program cmd))) \<and>
         (select T cmd \<noteq> Inl excluded)"
proof (intro conjI allI impI)
  fix i assume "i < length (tools T)"
    and "recognize (tools T ! i) (program cmd) \<and> (\<forall>j<i. \<not> recognize (tools T ! j) (program cmd))"
  then have "scan (tools T) (program cmd) = (take (Suc i) (tools T), Some (tools T ! i))"
    by (intro scan_first) auto
  then show "select T cmd = Inr (tools T ! i)" "fst (select_traced T cmd) = take (Suc i) (tools T)"
    using assms by (simp_all add: select_def select_traced_def)
next
  show "select T cmd = Inl unrecognized \<longleftrightarrow> (\<forall>t\<in>set (tools T). \<not> recognize t (program cmd))"
    using assms scan_None [of "tools T" "program cmd"]
    by (auto simp: select_def select_traced_def split: prod.splits option.splits)
next
  show "select T cmd \<noteq> Inl excluded"
    using assms
    by (auto simp: select_def select_traced_def excluded_def unrecognized_def split: prod.splits option.splits)
qed

theorem select_first_match_witness:
  "''/usr/bin/cc'' \<notin> set ([] :: string list) \<and>
   select \<lparr>tools = [cc_only, accept_all], to_exclude = []\<rparr>
          \<lparr>program = ''/usr/bin/cc'', arguments = []\<rparr> = Inr cc_only \<and>
   select \<lparr>tools = [cc_only, accept_all], to_exclude = []\<rparr>
          \<lparr>program = ''/usr/bin/as'', arguments = []\<rparr> = Inr accept_all \<and>
   select \<lparr>tools = [cc_only], to_exclude = []\<rparr>
          \<lparr>program = ''/usr/bin/as'', arguments = []\<rparr> = Inl unrecognized"
  using select_first_match [of "\<lparr>program = ''/usr/bin/cc'', arguments = []\<rparr>"
           "\<lparr>tools = [cc_only, accept_all], to_exclude = []\<rparr>"]
        select_first_match [of "\<lparr>program = ''/usr/bin/as'', arguments = []\<rparr>"
           "\<lparr>tools = [cc_only, accept_all], to_exclude = []\<rparr>"]
        select_first_match [of "\<lparr>program = ''/usr/bin/as'', arguments = []\<rparr>"
           "\<lparr>tools = [cc_only], to_exclude = []\<rparr>"]
  by (simp add: cc_only_def accept_all_def select_def select_traced_def)

section \<open>The linker recognizer\<close>

lemma c_str_id: "\<forall>c\<in>set s. c \<noteq> CHR 0x00 \<Longrightarrow> c_str s = s"
  by (simp add: c_str_def)

text \<open>
  Claim C10, as amended. \<^verbatim>\<open>ToolLD::recognize\<close> holds of a program exactly when its file
  name, read as a C string, is some \<open>a\<close>, then \<open>ld\<close>, then some \<open>b\<close>, with no line feed and no
  carriage return in \<open>a\<close> or \<open>b\<close>. For a file name without line terminators and zero bytes
  that is: exactly when \<open>ld\<close> occurs somewhere in the file name, as in \<open>ldd\<close>, \<open>gold\<close> or
  \<open>fold\<close>.
\<close>

theorem ToolLD_recognize_iff:
  "(ToolLD_recognize prog \<longleftrightarrow>
      (\<exists>a b. c_str (filename prog) = a @ ''ld'' @ b \<and> (\<forall>c\<in>set a \<union> set b. \<not> line_terminator c))) \<and>
   ((\<forall>c\<in>set (filename prog). \<not> line_terminator c \<and> c \<noteq> CHR 0x00) \<longrightarrow>
      (ToolLD_recognize prog \<longleftrightarrow> sublist ''ld'' (filename prog)))"
proof (intro conjI impI)
  show char: "ToolLD_recognize prog \<longleftrightarrow>
      (\<exists>a b. c_str (filename prog) = a @ ''ld'' @ b \<and> (\<forall>c\<in>set a \<union> set b. \<not> line_terminator c))"
    unfolding ToolLD_recognize_def by (rule pattern_match)
  assume clean: "\<forall>c\<in>set (filename prog). \<not> line_terminator c \<and> c \<noteq> CHR 0x00"
  then have same: "c_str (filename prog) = filename prog" by (simp add: c_str_id)
  show "ToolLD_recognize prog \<longleftrightarrow> sublist ''ld'' (filename prog)"
  proof
    assume "ToolLD_recognize prog"
    with char same obtain a b where "filename prog = a @ ''ld'' @ b" by auto
    then show "sublist ''ld'' (filename prog)" unfolding sublist_def by blast
  next
    assume "sublist ''ld'' (filename prog)"
    then obtain a b where ab: "filename prog = a @ ''ld'' @ b" unfolding sublist_def by blast
    with clean have "\<forall>c\<in>set a \<union> set b. \<not> line_terminator c" by auto
    with ab same char show "ToolLD_recognize prog" by auto
  qed
qed

theorem ToolLD_recognize_iff_witness:
  "ToolLD_recognize ''/usr/bin/gold'' \<and> ToolLD_recognize ''ldd'' \<and> ToolLD_recognize ''/opt/fold''"
proof -
  have g: "\<exists>a b. c_str (filename ''/usr/bin/gold'') = a @ ''ld'' @ b \<and>
             (\<forall>c\<in>set a \<union> set b. \<not> line_terminator c)"
    by (rule exI [of _ "''go''"], rule exI [of _ "[]"])
       (simp add: c_str_def filename_def line_terminator_def)
  have l: "\<exists>a b. c_str (filename ''ldd'') = a @ ''ld'' @ b \<and>
             (\<forall>c\<in>set a \<union> set b. \<not> line_terminator c)"
    by (rule exI [of _ "[]"], rule exI [of _ "''d''"])
       (simp add: c_str_def filename_def line_terminator_def)
  have f: "\<exists>a b. c_str (filename ''/opt/fold'') = a @ ''ld'' @ b \<and>
             (\<forall>c\<in>set a \<union> set b. \<not> line_terminator c)"
    by (rule exI [of _ "''fo''"], rule exI [of _ "[]"])
       (simp add: c_str_def filename_def line_terminator_def)
  from g have 1: "ToolLD_recognize ''/usr/bin/gold''"
    by (rule iffD2 [OF conjunct1 [OF ToolLD_recognize_iff]])
  from l have 2: "ToolLD_recognize ''ldd''"
    by (rule iffD2 [OF conjunct1 [OF ToolLD_recognize_iff]])
  from f have 3: "ToolLD_recognize ''/opt/fold''"
    by (rule iffD2 [OF conjunct1 [OF ToolLD_recognize_iff]])
  from 1 2 3 show ?thesis by simp
qed

text \<open>
  The claim as it was stated, recognition exactly when \<open>ld\<close> occurs in the file name, fails
  for a file name with a line feed after \<open>ld\<close>: the dot of the pattern does not match it.
\<close>

theorem ToolLD_newline_counterexample:
  "sublist ''ld'' (filename newline_ld) \<and> \<not> ToolLD_recognize newline_ld"
proof
  have "filename newline_ld = [] @ ''ld'' @ [CHR 0x0A]"
    by (simp add: filename_def newline_ld_def)
  then show "sublist ''ld'' (filename newline_ld)"
    unfolding sublist_def by blast
  show "\<not> ToolLD_recognize newline_ld"
    by (simp add: ToolLD_recognize_def newline_ld_def filename_def c_str_def pattern_def
          line_terminator_def)
qed

section \<open>The forest that the constructor builds\<close>

lemma iteration_order_sorted: "iteration_order (sorted_list_of_set :: 'a::linorder set \<Rightarrow> 'a list)"
  by (simp add: iteration_order_def)

lemma roots_forest_of:
  "set (roots (forest_of idx par input)) = top_level idx par input"
  "sorted (roots (forest_of idx par input))"
  "distinct (roots (forest_of idx par input))"
  by (simp_all add: forest_of_def top_level_def)

lemma top_level_mem:
  "i \<in> top_level idx par input \<longleftrightarrow> (\<exists>e\<in>set input. idx e = i \<and> par e \<notin> idx ` set input)"
  by (auto simp: top_level_def)

text \<open>
  Claim C5, as amended. The constructor never throws, and its map from ids to entries holds,
  for every id, the first record of the log with that id: a later record with the same id
  leaves the map as it is.
\<close>

theorem entries_first_wins:
  assumes "iteration_order iter"
  shows "\<exists>F. Forest iter idx par input = Inr F \<and>
           (\<forall>i. entries F i = find (\<lambda>e. idx e = i) input) \<and>
           (\<forall>before e after. input = before @ e # after \<and> idx e \<notin> idx ` set before \<longrightarrow>
               entries F (idx e) = Some e)"
proof -
  have "find (\<lambda>x. idx x = idx e) (before @ e # after) = Some e"
    if "idx e \<notin> idx ` set before" for before e after
    using that by (induction before) auto
  then show ?thesis
    unfolding Forest_closed [OF assms] by (auto simp: forest_of_def)
qed

theorem entries_first_wins_witness:
  "\<exists>F. Forest sorted_list_of_set id_of parent_of twice_logged = Inr F \<and>
       entries F 1 = Some (1, 0, ''first'')"
  using entries_first_wins [OF iteration_order_sorted, of id_of parent_of twice_logged]
  by (auto simp: twice_logged_def id_of_def)

text \<open>
  The claim as it was stated, that the last record of an id is the one kept, fails on a log
  of two records with the same id.
\<close>

theorem entries_last_counterexample:
  "(case Forest sorted_list_of_set id_of parent_of twice_logged of
      Inl e \<Rightarrow> None | Inr F \<Rightarrow> entries F 1) \<noteq> Some (last twice_logged)"
  unfolding Forest_closed [OF iteration_order_sorted]
  by (simp add: forest_of_def twice_logged_def id_of_def)

text \<open>
  Claim C6. Every candidate root left by the first loop that has no entry has its list of
  children, in first-seen order, in the map of children; the constructor makes each of these
  children a root, erases the candidate from the map of children and does not make it a
  root. Nothing else is erased: every other key of the map of children keeps the list the
  first loop gave it, so every logged id has its children in first-seen order, and the map
  of entries is the one of the first loop. The roots are the ids whose parent was never
  logged, in ascending order: two records with ids 3 and 2 and the unlogged parent 1 give
  the roots 2, 3, no children list for 1 and the empty children lists of 2 and 3.
\<close>

theorem phantom_roots_promoted:
  assumes "iteration_order iter"
  shows "\<exists>F. Forest iter idx par input = Inr F \<and>
           (\<forall>r\<in>maybe_roots (fold (insert_entry idx par) input build_init).
               b_entries (fold (insert_entry idx par) input build_init) r = None \<longrightarrow>
               b_nodes (fold (insert_entry idx par) input build_init) r
                 = Some (children_of idx par input r) \<and>
               set (children_of idx par input r) \<subseteq> set (roots F) \<and>
               nodes F r = None \<and> r \<notin> set (roots F)) \<and>
           roots F = sorted_list_of_set (top_level idx par input) \<and>
           (\<forall>i. \<not> (i \<in> maybe_roots (fold (insert_entry idx par) input build_init) \<and>
                    b_entries (fold (insert_entry idx par) input build_init) i = None) \<longrightarrow>
                nodes F i = b_nodes (fold (insert_entry idx par) input build_init) i) \<and>
           (\<forall>i\<in>idx ` set input. nodes F i = Some (children_of idx par input i)) \<and>
           entries F = b_entries (fold (insert_entry idx par) input build_init)"
proof -
  let ?F = "forest_of idx par input"
  let ?st = "built idx par input"
  have sub: "set (children_of idx par input r) \<subseteq> top_level idx par input"
    if "r \<notin> idx ` set input" for r
    using that by (auto simp: children_of_mem top_level_mem)
  have notroot: "r \<notin> top_level idx par input" if "r \<notin> idx ` set input" for r
    using that by (auto simp: top_level_mem)
  have phantom: "b_nodes ?st r = Some (children_of idx par input r) \<and>
      set (children_of idx par input r) \<subseteq> set (roots ?F) \<and>
      nodes ?F r = None \<and> r \<notin> set (roots ?F)"
    if "r \<in> maybe_roots ?st" for r
  proof -
    from that have r: "r \<in> par ` set input" "r \<notin> idx ` set input"
      by (simp_all add: built_def)
    from r have "b_nodes ?st r = Some (children_of idx par input r)"
      by (simp add: built_def)
    moreover from r(2) have "nodes ?F r = None" by (simp add: forest_of_def)
    ultimately show ?thesis
      using sub [OF r(2)] notroot [OF r(2)] by (simp add: roots_forest_of)
  qed
  have frame: "nodes ?F i = b_nodes ?st i"
    if "\<not> (i \<in> maybe_roots ?st \<and> b_entries ?st i = None)" for i
  proof (cases "i \<in> idx ` set input")
    case True
    then show ?thesis by (simp add: forest_of_def built_def)
  next
    case False
    then have "b_entries ?st i = None" by (simp add: built_def find_None_image)
    with that have "i \<notin> maybe_roots ?st" by blast
    with False have "i \<notin> par ` set input" by (simp add: built_def)
    with False show ?thesis by (simp add: forest_of_def built_def)
  qed
  have logged: "nodes ?F i = Some (children_of idx par input i)" if "i \<in> idx ` set input" for i
    using that by (simp add: forest_of_def)
  have ents: "entries ?F = b_entries ?st" by (simp add: forest_of_def built_def)
  have rts: "roots ?F = sorted_list_of_set (top_level idx par input)"
    by (simp add: forest_of_def)
  show ?thesis
    unfolding Forest_closed [OF assms] fold_insert_entry
    using phantom frame logged ents rts by blast
qed

theorem phantom_roots_promoted_witness:
  "\<exists>F. Forest sorted_list_of_set id_of parent_of orphans = Inr F \<and> roots F = [2, 3] \<and>
       nodes F 1 = None \<and> nodes F 2 = Some [] \<and> nodes F 3 = Some []"
proof -
  let ?st = "fold (insert_entry id_of parent_of) orphans build_init"
  have m: "maybe_roots ?st = {1}"
    by (simp add: orphans_def insert_entry_def build_init_def emplace_def id_of_def parent_of_def Let_def)
  have e: "b_entries ?st 1 = None"
    by (simp add: orphans_def insert_entry_def build_init_def emplace_def id_of_def parent_of_def Let_def)
  have n: "b_nodes ?st 2 = Some []" "b_nodes ?st 3 = Some []"
    by (simp_all add: orphans_def insert_entry_def build_init_def emplace_def id_of_def
          parent_of_def Let_def)
  have t: "sorted_list_of_set (top_level id_of parent_of orphans) = [2, 3]"
    by (simp add: top_level_def orphans_def id_of_def parent_of_def sorted_list_of_set_sort_remdups)
  from phantom_roots_promoted [OF iteration_order_sorted, of id_of parent_of orphans]
  obtain F where all: "Forest sorted_list_of_set id_of parent_of orphans = Inr F \<and>
           (\<forall>r\<in>maybe_roots ?st. b_entries ?st r = None \<longrightarrow>
               b_nodes ?st r = Some (children_of id_of parent_of orphans r) \<and>
               set (children_of id_of parent_of orphans r) \<subseteq> set (roots F) \<and>
               nodes F r = None \<and> r \<notin> set (roots F)) \<and>
           roots F = sorted_list_of_set (top_level id_of parent_of orphans) \<and>
           (\<forall>i. \<not> (i \<in> maybe_roots ?st \<and> b_entries ?st i = None) \<longrightarrow>
                nodes F i = b_nodes ?st i) \<and>
           (\<forall>i\<in>id_of ` set orphans. nodes F i = Some (children_of id_of parent_of orphans i)) \<and>
           entries F = b_entries ?st" ..
  from all have F: "Forest sorted_list_of_set id_of parent_of orphans = Inr F"
    by (rule conjunct1)
  from all have ph: "\<forall>r\<in>maybe_roots ?st. b_entries ?st r = None \<longrightarrow>
               b_nodes ?st r = Some (children_of id_of parent_of orphans r) \<and>
               set (children_of id_of parent_of orphans r) \<subseteq> set (roots F) \<and>
               nodes F r = None \<and> r \<notin> set (roots F)"
    by (rule conjunct1 [OF conjunct2])
  from all have r: "roots F = sorted_list_of_set (top_level id_of parent_of orphans)"
    by (rule conjunct1 [OF conjunct2 [OF conjunct2]])
  from all have fr: "\<forall>i. \<not> (i \<in> maybe_roots ?st \<and> b_entries ?st i = None) \<longrightarrow>
                nodes F i = b_nodes ?st i"
    by (rule conjunct1 [OF conjunct2 [OF conjunct2 [OF conjunct2]]])
  have "1 \<in> maybe_roots ?st" by (simp add: m)
  with ph e have "nodes F 1 = None" by blast
  moreover have "nodes F 2 = b_nodes ?st 2" "nodes F 3 = b_nodes ?st 3"
    using fr by (simp_all add: m)
  ultimately show ?thesis using F r t n by simp
qed

section \<open>The traversal of a constructed forest\<close>

lemma bfs_loop_Nil: "bfs_loop F f [] result queried = Some (Inr (result, queried))"
  by (subst bfs_loop.simps) simp

lemma bfs_loop_success:
  "entries F i = Some entry \<Longrightarrow> f entry = Inr outputs \<Longrightarrow>
   bfs_loop F f (i # rest) result queried = bfs_loop F f rest (result @ outputs) (queried @ [i])"
  by (subst bfs_loop.simps) simp

lemma bfs_loop_failure:
  "entries F i = Some entry \<Longrightarrow> f entry = Inl err \<Longrightarrow> nodes F i = Some ids \<Longrightarrow>
   bfs_loop F f (i # rest) result queried = bfs_loop F f (rest @ ids) result (queried @ [i])"
  by (subst bfs_loop.simps) simp

lemma bfs_run_unique_ids:
  assumes "distinct (map idx input)"
  shows "\<exists>result queried. bfs_run (forest_of idx par input) f = Some (Inr (result, queried)) \<and>
           visit_inv idx par input [] queried"
proof -
  have "visit_inv idx par input (roots (forest_of idx par input)) []"
    using visit_inv_init [OF assms, of par] by (simp add: forest_of_def)
  from bfs_loop_unique_ids [OF assms this] show ?thesis
    unfolding bfs_run_def .
qed

lemma forest_of_entries: "entries (forest_of idx par input) i = find (\<lambda>e. idx e = i) input"
  by (simp add: forest_of_def)

lemma forest_of_nodes:
  "nodes (forest_of idx par input) i =
     (if i \<in> idx ` set input then Some (children_of idx par input i) else None)"
  by (simp add: forest_of_def)

lemma forest_of_roots:
  "roots (forest_of idx par input) = sort (remdups (map idx (filter (\<lambda>e. par e \<notin> idx ` set input) input)))"
  unfolding forest_of_def top_level_def by (simp only: forest.select_convs sorted_list_of_set_sort_remdups)

text \<open>
  Claim C8. For a log with unique ids the constructor returns a forest on which the
  traversal returns, whatever the recognition function does: the work queue empties after
  at most as many steps as the log has records, and no id is taken from the queue twice.
  Nothing is assumed of the parent ids, so a record may name itself as its parent.
\<close>

theorem bfs_terminates_unique_ids:
  assumes "iteration_order iter" and "distinct (map idx input)"
  shows "\<exists>F result queried. Forest iter idx par input = Inr F \<and>
           bfs_run F f = Some (Inr (result, queried)) \<and> bfs F f = Some (Inr result) \<and>
           distinct queried \<and> set queried \<subseteq> idx ` set input \<and> length queried \<le> length input"
proof -
  from bfs_run_unique_ids [OF assms(2), of par f] obtain result queried where
    r: "bfs_run (forest_of idx par input) f = Some (Inr (result, queried))"
    and v: "visit_inv idx par input [] queried" by blast
  from v have "distinct queried" "set queried \<subseteq> idx ` set input"
    unfolding visit_inv_def by simp_all
  moreover from visit_inv_bound [OF v] have "length queried \<le> length input" by simp
  moreover from r have "bfs (forest_of idx par input) f = Some (Inr result)"
    by (simp add: bfs_def)
  ultimately show ?thesis
    unfolding Forest_closed [OF assms(1)] using r by blast
qed

theorem bfs_terminates_unique_ids_witness:
  "distinct (map id_of self_parent) \<and>
   (\<exists>F. Forest sorted_list_of_set id_of parent_of self_parent = Inr F \<and>
     bfs_run F never_recognized = Some (Inr ([], [1, 3])))"
proof -
  have d: "distinct (map id_of self_parent)"
    by (simp add: self_parent_def id_of_def)
  from bfs_terminates_unique_ids [OF iteration_order_sorted d, of parent_of never_recognized]
  obtain F result queried where
    F: "Forest sorted_list_of_set id_of parent_of self_parent = Inr F"
    and r: "bfs_run F never_recognized = Some (Inr (result, queried))" by blast
  from F have F': "F = forest_of id_of parent_of self_parent"
    unfolding Forest_closed [OF iteration_order_sorted] by simp
  have "bfs_run F never_recognized = Some (Inr ([], [1, 3]))"
    unfolding F' bfs_run_def forest_of_roots
    by (simp add: self_parent_def id_of_def parent_of_def never_recognized_def
          bfs_loop_failure [where err = "()"] bfs_loop_Nil forest_of_entries forest_of_nodes
          children_of_def)
  with d F show ?thesis by blast
qed

lemma bfs_run_trace:
  assumes "bfs_run F f = Some (Inr (result, queried))"
  shows "result = concat (map (produced F f) queried)"
    and "queried = roots F @ concat (map (enqueued F f) queried)"
  using bfs_loop_trace_aux [OF assms [unfolded bfs_run_def]] by auto

lemma find_Some_image: "find (\<lambda>e. idx e = i) xs = Some e \<Longrightarrow> e \<in> set xs \<and> idx e = i"
  by (auto simp: find_Some_iff)







lemma bfs_loop_no_throw:
  assumes "bfs_loop (forest_of idx par input) f queue result queried = Some y"
    and "set queue \<subseteq> idx ` set input"
  shows "y \<noteq> Inl e"
proof -
  let ?P = "\<lambda>F g queue result queried y.
       F = forest_of idx par input \<longrightarrow> set queue \<subseteq> idx ` set input \<longrightarrow> y \<noteq> Inl e"
  have "?P (forest_of idx par input) f queue result queried y"
  proof (rule bfs_loop.raw_induct [where P = ?P, OF _ assms(1)], goal_cases)
    case (1 loop F g queue result queried y)
    show ?case
    proof (intro impI)
      assume F: "F = forest_of idx par input" and q: "set queue \<subseteq> idx ` set input"
      show "y \<noteq> Inl e"
      proof (cases queue)
        case Nil
        with 1(2) show ?thesis by auto
      next
        case (Cons i rest)
        with q have i: "i \<in> idx ` set input" and rest: "set rest \<subseteq> idx ` set input" by auto
        from forest_of_entries_Some [OF i] obtain entry where entry: "entries F i = Some entry"
          unfolding F by blast
        have n: "nodes F i = Some (children_of idx par input i)"
          using i by (simp add: F forest_of_nodes)
        have sub: "set (rest @ children_of idx par input i) \<subseteq> idx ` set input"
          using rest by (auto simp: children_of_mem)
        show ?thesis
        proof (cases "g entry")
          case (Inr outputs)
          with 1(2) Cons entry
          have "loop F g rest (result @ outputs) (queried @ [i]) = Some y" by simp
          from 1(1) [OF this] F rest show ?thesis by simp
        next
          case (Inl err)
          with 1(2) Cons entry n
          have "loop F g (rest @ children_of idx par input i) result (queried @ [i]) = Some y"
            by simp
          from 1(1) [OF this] F sub show ?thesis by simp
        qed
      qed
    qed
  qed
  with assms(2) show ?thesis by simp
qed

lemma bfs_no_throw: "bfs (forest_of idx par input) f \<noteq> Some (Inl e)"
proof
  assume "bfs (forest_of idx par input) f = Some (Inl e)"
  then obtain y where y: "bfs_run (forest_of idx par input) f = Some y" "map_sum id fst y = Inl e"
    by (auto simp: bfs_def)
  then have "y = Inl e" by (cases y) auto
  moreover have "set (roots (forest_of idx par input)) \<subseteq> idx ` set input"
    by (auto simp: roots_forest_of top_level_mem)
  ultimately show False
    using bfs_loop_no_throw [OF y(1) [unfolded bfs_run_def], of e] by simp
qed

text \<open>
  Claim C4, as amended. On a constructed forest, when the recognition function fails on the
  entry of the id at the front of the queue, whatever the error, the traversal goes on with
  the rest of the queue followed by the children of that id in first-seen order, and with
  the result unchanged. No failure is passed on: the traversal never ends in an exception.
  For a log with unique ids it always returns a result list.
\<close>

theorem bfs_continues_after_failure:
  assumes "iteration_order iter" and "Forest iter idx par input = Inr F"
  shows "(\<forall>i rest result queried entry err.
            entries F i = Some entry \<and> f entry = Inl err \<longrightarrow>
            bfs_loop F f (i # rest) result queried =
              bfs_loop F f (rest @ children_of idx par input i) result (queried @ [i])) \<and>
         (\<forall>e. bfs F f \<noteq> Some (Inl e)) \<and>
         (distinct (map idx input) \<longrightarrow> (\<exists>result. bfs F f = Some (Inr result)))"
proof -
  from assms have F: "F = forest_of idx par input"
    by (simp add: Forest_closed)
  show ?thesis
  proof (intro conjI allI impI)
    fix i rest result queried entry err
    assume a: "entries F i = Some entry \<and> f entry = Inl err"
    then have "i \<in> idx ` set input"
      using find_Some_image [of idx i input entry] by (auto simp: F forest_of_entries)
    then have "nodes F i = Some (children_of idx par input i)"
      by (simp add: F forest_of_nodes)
    with a show "bfs_loop F f (i # rest) result queried =
        bfs_loop F f (rest @ children_of idx par input i) result (queried @ [i])"
      by (simp add: bfs_loop_failure)
  next
    fix e show "bfs F f \<noteq> Some (Inl e)" unfolding F by (rule bfs_no_throw)
  next
    assume "distinct (map idx input)"
    from bfs_run_unique_ids [OF this, of par f] show "\<exists>result. bfs F f = Some (Inr result)"
      unfolding F by (auto simp: bfs_def)
  qed
qed

theorem bfs_continues_after_failure_witness:
  "\<exists>F. Forest sorted_list_of_set pid_of ppid_of [sh_run, cc_run] = Inr F \<and>
       Tools_recognize registry sh_run = Inl excluded \<and>
       bfs F (Tools_recognize registry) = Some (Inr [''/usr/bin/cc''])"
proof -
  let ?F = "forest_of pid_of ppid_of [sh_run, cc_run]"
  let ?f = "Tools_recognize registry"
  have F: "Forest sorted_list_of_set pid_of ppid_of [sh_run, cc_run] = Inr ?F"
    by (rule Forest_closed [OF iteration_order_sorted])
  have sh: "?f sh_run = Inl excluded"
    by (simp add: Tools_recognize_def select_def select_traced_def registry_def sh_run_def)
  have cc: "?f cc_run = Inr [''/usr/bin/cc'']"
    by (simp add: Tools_recognize_def select_def select_traced_def registry_def cc_run_def
          cc_only_def)
  have e1: "entries ?F 1 = Some sh_run" and e2: "entries ?F 2 = Some cc_run"
    by (simp_all add: forest_of_entries pid_of_def sh_run_def cc_run_def)
  have r: "roots ?F = [1]"
    unfolding forest_of_roots by (simp add: pid_of_def ppid_of_def sh_run_def cc_run_def)
  have c: "children_of pid_of ppid_of [sh_run, cc_run] 1 = [2]"
    by (simp add: children_of_def pid_of_def ppid_of_def sh_run_def cc_run_def)
  from bfs_continues_after_failure [OF iteration_order_sorted F, of ?f] e1 sh
  have "bfs_loop ?F ?f [1] [] [] =
        bfs_loop ?F ?f ([] @ children_of pid_of ppid_of [sh_run, cc_run] 1) [] ([] @ [1])"
    by blast
  also have "\<dots> = bfs_loop ?F ?f [2] [] [1]"
    by (simp only: c append_Nil)
  also have "\<dots> = bfs_loop ?F ?f [] ([] @ [''/usr/bin/cc'']) ([1] @ [2])"
    using e2 cc by (rule bfs_loop_success)
  also have "\<dots> = Some (Inr ([''/usr/bin/cc''], [1, 2]))"
    by (simp add: bfs_loop_Nil)
  finally have "bfs ?F ?f = Some (Inr [''/usr/bin/cc''])"
    by (simp add: bfs_def bfs_run_def r)
  with F sh show ?thesis by blast
qed

lemma reused_pid_loops:
  "bfs_loop (forest_of id_of parent_of reused_pid) never_recognized queue result queried = Some y
     \<Longrightarrow> queue \<noteq> [1] \<and> queue \<noteq> [2]"
proof -
  let ?F = "forest_of id_of parent_of reused_pid"
  let ?P = "\<lambda>F (g :: nat \<times> nat \<times> string \<Rightarrow> unit + unit list) (queue :: nat list)
       (result :: unit list) (queried :: nat list) (y :: exn + unit list \<times> nat list).
       F = ?F \<longrightarrow> g = never_recognized \<longrightarrow> queue \<noteq> [1] \<and> queue \<noteq> [2]"
  assume run: "bfs_loop ?F never_recognized queue result queried = Some y"
  have e1: "entries ?F 1 = Some (1, 0, ''make'')" and e2: "entries ?F 2 = Some (2, 1, ''sh'')"
    by (simp_all add: forest_of_entries reused_pid_def id_of_def)
  have n1: "nodes ?F 1 = Some [2]" and n2: "nodes ?F 2 = Some [1]"
    by (simp_all add: forest_of_nodes reused_pid_def id_of_def parent_of_def children_of_def)
  have "?P ?F never_recognized queue result queried y"
  proof (rule bfs_loop.raw_induct [where P = ?P, OF _ run], goal_cases)
    case (1 loop F g queue result queried y)
    show ?case
    proof (intro impI conjI notI)
      assume F: "F = ?F" and g: "g = never_recognized" and q: "queue = [1]"
      with 1(2) e1 n1 have "loop F g [2] result (queried @ [1]) = Some y"
        by (simp add: never_recognized_def)
      from 1(1) [OF this] F g show False by simp
    next
      assume F: "F = ?F" and g: "g = never_recognized" and q: "queue = [2]"
      with 1(2) e2 n2 have "loop F g [1] result (queried @ [2]) = Some y"
        by (simp add: never_recognized_def)
      from 1(1) [OF this] F g show False by simp
    qed
  qed
  then show ?thesis by simp
qed

text \<open>
  The claim as it was stated, that the traversal always returns, fails on a log in which an
  id is used a second time below its first use, when nothing is recognized: the two ids
  are each a child of the other and the queue never empties.
\<close>

theorem bfs_reused_pid_counterexample:
  "(case Forest sorted_list_of_set id_of parent_of reused_pid of
      Inl e \<Rightarrow> Some (Inl e) | Inr F \<Rightarrow> bfs F never_recognized) = None"
proof -
  have r: "roots (forest_of id_of parent_of reused_pid) = [1]"
    unfolding forest_of_roots by (simp add: reused_pid_def id_of_def parent_of_def)
  have "bfs_run (forest_of id_of parent_of reused_pid) never_recognized = None"
  proof (cases "bfs_run (forest_of id_of parent_of reused_pid) never_recognized")
    case (Some y)
    then show ?thesis using reused_pid_loops [of "[1]" "[]" "[]" y] by (simp add: bfs_run_def r)
  qed simp
  then show ?thesis
    unfolding Forest_closed [OF iteration_order_sorted] by (simp add: bfs_def)
qed






lemma concat_map_if:
  "concat (map (\<lambda>i. if P i then g i else []) xs) = concat (map g (filter P xs))"
  by (induction xs) simp_all

lemma enqueued_fails:
  "enqueued (forest_of idx par input) f =
     (\<lambda>i. if fails (forest_of idx par input) f i then children_of idx par input i else [])"
proof
  fix i
  show "enqueued (forest_of idx par input) f i =
     (if fails (forest_of idx par input) f i then children_of idx par input i else [])"
  proof (cases "entries (forest_of idx par input) i")
    case None
    then show ?thesis by (simp add: enqueued_def fails_def)
  next
    case (Some entry)
    then have "i \<in> idx ` set input"
      using find_Some_image [of idx i input entry] by (auto simp: forest_of_entries)
    then show ?thesis
      using Some by (cases "f entry") (simp_all add: enqueued_def fails_def forest_of_nodes)
  qed
qed

text \<open>
  Claim C9. The roots of a constructed forest are the ids whose parent was never logged, in
  ascending order and without repetition, and the forest is the same for every order in
  which the hash sets hand out their elements. When the traversal returns, the visited ids
  are the roots, in that order, followed by the children, in first-seen order, of each
  visited id on which recognition failed, in the order of these visits; the result is what
  was produced on the visited ids, in visiting order.
\<close>

theorem bfs_order:
  assumes "iteration_order iter" and "Forest iter idx par input = Inr F"
  shows "sorted (roots F) \<and> distinct (roots F) \<and> set (roots F) = top_level idx par input \<and>
         (\<forall>iter'. iteration_order iter' \<longrightarrow> Forest iter' idx par input = Inr F) \<and>
         (\<forall>result queried. bfs_run F f = Some (Inr (result, queried)) \<longrightarrow>
            queried = roots F @ concat (map (children_of idx par input) (filter (fails F f) queried)) \<and>
            result = concat (map (produced F f) queried))"
proof -
  from assms have F: "F = forest_of idx par input"
    by (simp add: Forest_closed)
  have "queried = roots F @ concat (map (children_of idx par input) (filter (fails F f) queried))"
    if "bfs_run F f = Some (Inr (result, queried))" for result queried
    using bfs_run_trace(2) [OF that] unfolding F enqueued_fails concat_map_if .
  moreover have "result = concat (map (produced F f) queried)"
    if "bfs_run F f = Some (Inr (result, queried))" for result queried
    using that by (rule bfs_run_trace(1))
  moreover have "Forest iter' idx par input = Inr F" if "iteration_order iter'" for iter'
    using that by (simp add: Forest_closed F)
  ultimately show ?thesis
    using roots_forest_of [of idx par input] unfolding F by blast
qed

lemma build_log_run:
  "bfs_run (forest_of id_of parent_of build_log) recognize_cc
     = Some (Inr ([5, 3, 6], [2, 4, 5, 3, 6]))"
proof -
  let ?F = "forest_of id_of parent_of build_log"
  have r: "roots ?F = [2, 4]"
    unfolding forest_of_roots by (simp add: build_log_def id_of_def parent_of_def)
  have e: "entries ?F 2 = Some (2, 0, ''make'')" "entries ?F 4 = Some (4, 0, ''sh'')"
    "entries ?F 5 = Some (5, 2, ''cc'')" "entries ?F 3 = Some (3, 2, ''cc'')"
    "entries ?F 6 = Some (6, 4, ''cc'')"
    by (simp_all add: forest_of_entries build_log_def id_of_def)
  have n: "nodes ?F 2 = Some [5, 3]" "nodes ?F 4 = Some [6]"
    by (simp_all add: forest_of_nodes build_log_def id_of_def parent_of_def children_of_def)
  have f: "recognize_cc (2, 0, ''make'') = Inl ()" "recognize_cc (4, 0, ''sh'') = Inl ()"
    "recognize_cc (5, 2, ''cc'') = Inr [5]" "recognize_cc (3, 2, ''cc'') = Inr [3]"
    "recognize_cc (6, 4, ''cc'') = Inr [6]"
    by (simp_all add: recognize_cc_def label_of_def id_of_def)
  note failure = bfs_loop_failure [where F = ?F and f = recognize_cc]
  note success = bfs_loop_success [where F = ?F and f = recognize_cc]
  have "bfs_loop ?F recognize_cc [2, 4] [] [] = bfs_loop ?F recognize_cc ([4] @ [5, 3]) [] ([] @ [2])"
    by (rule failure [OF e(1) f(1) n(1)])
  also have "\<dots> = bfs_loop ?F recognize_cc ([5, 3] @ [6]) [] ([2] @ [4])"
    using failure [OF e(2) f(2) n(2), of "[5, 3]" "[]" "[2]"] by simp
  also have "\<dots> = bfs_loop ?F recognize_cc [3, 6] ([] @ [5]) ([2, 4] @ [5])"
    using success [OF e(3) f(3), of "[3, 6]" "[]" "[2, 4]"] by simp
  also have "\<dots> = bfs_loop ?F recognize_cc [6] ([5] @ [3]) ([2, 4, 5] @ [3])"
    using success [OF e(4) f(4), of "[6]" "[5]" "[2, 4, 5]"] by simp
  also have "\<dots> = bfs_loop ?F recognize_cc [] ([5, 3] @ [6]) ([2, 4, 5, 3] @ [6])"
    using success [OF e(5) f(5), of "[]" "[5, 3]" "[2, 4, 5, 3]"] by simp
  also have "\<dots> = Some (Inr ([5, 3, 6], [2, 4, 5, 3, 6]))"
    by (simp add: bfs_loop_Nil)
  finally show ?thesis by (simp add: bfs_run_def r)
qed

theorem bfs_order_witness:
  "\<exists>F. Forest sorted_list_of_set id_of parent_of build_log = Inr F \<and> roots F = [2, 4] \<and>
       bfs_run F recognize_cc = Some (Inr ([5, 3, 6], [2, 4, 5, 3, 6])) \<and>
       filter (fails F recognize_cc) [2, 4, 5, 3, 6] = [2, 4] \<and>
       [2, 4, 5, 3, 6] = [2, 4] @ children_of id_of parent_of build_log 2
                             @ children_of id_of parent_of build_log 4"
proof -
  let ?F = "forest_of id_of parent_of build_log"
  have F: "Forest sorted_list_of_set id_of parent_of build_log = Inr ?F"
    by (rule Forest_closed [OF iteration_order_sorted])
  have r: "roots ?F = [2, 4]"
    unfolding forest_of_roots by (simp add: build_log_def id_of_def parent_of_def)
  have fl: "filter (fails ?F recognize_cc) [2, 4, 5, 3, 6] = [2, 4]"
    by (simp add: fails_def forest_of_entries build_log_def id_of_def recognize_cc_def label_of_def)
  from bfs_order [OF iteration_order_sorted F, of recognize_cc] build_log_run
  have "[2, 4, 5, 3, 6] = roots ?F @ concat (map (children_of id_of parent_of build_log)
          (filter (fails ?F recognize_cc) [2, 4, 5, 3, 6]))"
    by blast
  then have "[2, 4, 5, 3, 6] = [2, 4] @ children_of id_of parent_of build_log 2
                             @ children_of id_of parent_of build_log 4"
    unfolding fl r by simp
  with F r build_log_run fl show ?thesis by blast
qed

end
